theory Spec2Isabelle
  imports Complex_Main
begin

section \<open>Connectivity grouping of cells (step_8_grid_analysis, h3_advanced.py)\<close>

text \<open>
  The source groups a set of H3 cells into connected groups:
  \<^verbatim>\<open>
  connected_groups = []
  unvisited = set(all_hexes)
  while unvisited:
      start_hex = next(iter(unvisited))
      group = set()
      queue = [start_hex]
      while queue:
          current_hex = queue.pop(0)
          if current_hex in unvisited:
              group.add(current_hex)
              unvisited.remove(current_hex)
              neighbors = h3.k_ring(current_hex, 1)
              for neighbor in neighbors:
                  if neighbor in unvisited:
                      queue.append(neighbor)
      if group:
          connected_groups.append(group)
  \<close>
  The set \<open>unvisited\<close> is modelled by the list of its elements in iteration order, so
  that \<open>next(iter(unvisited))\<close> is the head of the list; removing an element keeps the
  order of the others. The library call \<open>h3.k_ring(c, 1)\<close> is the parameter \<open>k_ring\<close>,
  giving the neighbours of a cell in the order the inner \<open>for\<close> loop meets them. A group
  is a set, the queue a list, the result a list of sets.
\<close>

type_synonym 'a bfs_state = "'a list \<times> 'a list \<times> 'a set"

text \<open>One pass through the body of \<open>while queue:\<close>; the state is (unvisited, queue, group).\<close>

fun bfs_body :: "('a \<Rightarrow> 'a list) \<Rightarrow> 'a bfs_state \<Rightarrow> 'a bfs_state" where
  "bfs_body k_ring (unvisited, current_hex # queue, group_set) =
     (if current_hex \<in> set unvisited
      then (removeAll current_hex unvisited,
            queue @ filter (\<lambda>neighbor. neighbor \<in> set (removeAll current_hex unvisited))
                      (k_ring current_hex),
            insert current_hex group_set)
      else (unvisited, queue, group_set))"
| "bfs_body k_ring (unvisited, [], group_set) = (unvisited, [], group_set)"

text \<open>The loop \<open>while queue:\<close>. Not returning is the value \<open>None\<close>.\<close>

partial_function (option) bfs_while :: "('a \<Rightarrow> 'a list) \<Rightarrow> 'a bfs_state \<Rightarrow> 'a bfs_state option" where
  "bfs_while k_ring s =
     (if fst (snd s) \<noteq> [] then bfs_while k_ring (bfs_body k_ring s) else Some s)"

text \<open>The loop \<open>while unvisited:\<close>, with the list of groups found so far.\<close>

partial_function (option) groups_while ::
  "('a \<Rightarrow> 'a list) \<Rightarrow> 'a list \<Rightarrow> 'a set list \<Rightarrow> 'a set list option" where
  "groups_while k_ring unvisited connected_groups =
     (case unvisited of
        [] \<Rightarrow> Some connected_groups
      | start_hex # _ \<Rightarrow>
          Option.bind (bfs_while k_ring (unvisited, [start_hex], {}))
            (\<lambda>(unvisited', queue, group_set).
               groups_while k_ring unvisited'
                 (if group_set \<noteq> {} then connected_groups @ [group_set] else connected_groups)))"

definition connected_groups :: "('a \<Rightarrow> 'a list) \<Rightarrow> 'a list \<Rightarrow> 'a set list option" where
  "connected_groups k_ring all_hexes = groups_while k_ring all_hexes []"

text \<open>The state after \<open>n\<close> passes through the body of the inner loop (fewer when the
  queue empties earlier: the body leaves a state with an empty queue as it is).\<close>

definition bfs_after :: "nat \<Rightarrow> ('a \<Rightarrow> 'a list) \<Rightarrow> 'a bfs_state \<Rightarrow> 'a bfs_state" where
  "bfs_after n k_ring s = (bfs_body k_ring ^^ n) s"

subsection \<open>Vocabulary of the specification\<close>

text \<open>The one-step adjacency restricted to a cell set \<open>C\<close>, and the cells reachable from a
  cell through it.\<close>

definition edges :: "('a \<Rightarrow> 'a list) \<Rightarrow> 'a set \<Rightarrow> ('a \<times> 'a) set" where
  "edges k_ring C = {(a, b). a \<in> C \<and> b \<in> C \<and> b \<in> set (k_ring a)}"

definition reach :: "('a \<Rightarrow> 'a list) \<Rightarrow> 'a set \<Rightarrow> 'a \<Rightarrow> 'a set" where
  "reach k_ring C a = {b. (a, b) \<in> (edges k_ring C)\<^sup>*}"

text \<open>A chain \<open>a = c0, c1, ..., cn\<close> in which every cell is a neighbour of the one before
  and lies in \<open>C\<close>; the list holds \<open>c1, ..., cn\<close>.\<close>

fun is_chain :: "('a \<Rightarrow> 'a list) \<Rightarrow> 'a set \<Rightarrow> 'a \<Rightarrow> 'a list \<Rightarrow> bool" where
  "is_chain k_ring C a [] = True"
| "is_chain k_ring C a (b # cs) = (b \<in> set (k_ring a) \<and> b \<in> C \<and> is_chain k_ring C b cs)"

text \<open>The oracle is symmetric on \<open>C\<close>: inside \<open>C\<close>, adjacency goes both ways, as it
  does for the rings of a hexagonal grid.\<close>

definition symmetric_on :: "('a \<Rightarrow> 'a list) \<Rightarrow> 'a set \<Rightarrow> bool" where
  "symmetric_on k_ring C \<longleftrightarrow> (\<forall>a\<in>C. \<forall>b\<in>C. b \<in> set (k_ring a) \<longrightarrow> a \<in> set (k_ring b))"

text \<open>The invariant of the inner loop started at \<open>start\<close> on the cell set \<open>C\<close>.\<close>

definition bfs_inv :: "('a \<Rightarrow> 'a list) \<Rightarrow> 'a set \<Rightarrow> 'a \<Rightarrow> 'a bfs_state \<Rightarrow> bool" where
  "bfs_inv k_ring C start s \<longleftrightarrow>
     (case s of (unvisited, queue, group_set) \<Rightarrow>
        group_set \<union> set unvisited = C \<and> group_set \<inter> set unvisited = {} \<and>
        set queue \<subseteq> reach k_ring C start \<and> group_set \<subseteq> reach k_ring C start \<and>
        (\<forall>a\<in>group_set. \<forall>b\<in>set (k_ring a). b \<in> C \<longrightarrow> b \<in> group_set \<or> b \<in> set queue) \<and>
        (start \<in> group_set \<or> start \<in> set queue))"

subsection \<open>Example oracles\<close>

text \<open>The scenario of the specification: edges 1-2, 2-3 and 4-5 (every ring holds its
  centre, as \<open>h3.k_ring\<close> does), and cell 6, adjacent to 5, outside the input.\<close>

definition scenario_ring :: "nat \<Rightarrow> nat list" where
  "scenario_ring c =
     (if c = 1 then [1, 2] else if c = 2 then [2, 1, 3] else if c = 3 then [3, 2]
      else if c = 4 then [4, 5] else if c = 5 then [5, 4, 6] else if c = 6 then [6, 5] else [c])"

text \<open>Three mutually adjacent cells.\<close>

definition triangle_ring :: "nat \<Rightarrow> nat list" where
  "triangle_ring c = (if c = 1 \<or> c = 2 \<or> c = 3 then [1, 2, 3] else [c])"

section \<open>Square grid (hexagon_vs_square_performance.py)\<close>

text \<open>
  \<^verbatim>\<open>
  def square_grid_index(lat, lng, resolution):
      grid_size = 0.1 / (2 ** resolution)
      grid_x = int(lng / grid_size)
      grid_y = int(lat / grid_size)
      return f"{grid_x}_{grid_y}_{resolution}"

  def square_grid_neighbors(grid_x, grid_y, k):
      neighbors = []
      for dx in range(-k, k+1):
          for dy in range(-k, k+1):
              if abs(dx) + abs(dy) <= k:
                  neighbors.append(f"{grid_x + dx}_{grid_y + dy}")
      return neighbors
  \<close>
  Python's floats are modelled by the real numbers: rounding, overflow and the special
  values of floating point arithmetic are outside the model. Grid coordinates and the
  resolution are Python's unbounded integers.
\<close>

text \<open>The decimal text of an integer, as an f-string prints it.\<close>

definition digit :: "nat \<Rightarrow> char" where
  "digit d = ''0123456789'' ! d"

definition digit_chars :: "char set" where
  "digit_chars = set ''0123456789''"

fun str_nat :: "nat \<Rightarrow> string" where
  "str_nat n = (if n < 10 then [digit n] else str_nat (n div 10) @ [digit (n mod 10)])"

definition str_int :: "int \<Rightarrow> string" where
  "str_int i = (if i < 0 then CHR ''-'' # str_nat (nat (- i)) else str_nat (nat i))"

text \<open>\<open>int(x)\<close> on a float rounds toward zero.\<close>

definition py_int :: "real \<Rightarrow> int" where
  "py_int x = (if x < 0 then - \<lfloor>- x\<rfloor> else \<lfloor>x\<rfloor>)"

text \<open>\<open>2 ** resolution\<close> is a float when the resolution is negative, hence the power
  with an integer exponent.\<close>

definition grid_size :: "int \<Rightarrow> real" where
  "grid_size resolution = (1 / 10) / (2 powi resolution)"

definition square_grid_index :: "real \<Rightarrow> real \<Rightarrow> int \<Rightarrow> string" where
  "square_grid_index lat lng resolution =
     (let grid_x = py_int (lng / grid_size resolution);
          grid_y = py_int (lat / grid_size resolution)
      in str_int grid_x @ ''_'' @ str_int grid_y @ ''_'' @ str_int resolution)"

text \<open>\<open>range(-k, k+1)\<close> is the list \<open>[- k..k]\<close>, which is empty when \<open>k\<close> is negative.\<close>

definition square_grid_neighbors :: "int \<Rightarrow> int \<Rightarrow> int \<Rightarrow> string list" where
  "square_grid_neighbors grid_x grid_y k =
     concat (map (\<lambda>dx. concat (map (\<lambda>dy.
        if \<bar>dx\<bar> + \<bar>dy\<bar> \<le> k then [str_int (grid_x + dx) @ ''_'' @ str_int (grid_y + dy)] else [])
        [- k..k])) [- k..k])"

declare str_nat.simps [simp del]

section \<open>Empty input\<close>

text \<open>C7: for every oracle, grouping the empty cell set returns the empty list of
  groups; it returns (the result is \<open>Some\<close>), so it is not an error.\<close>

theorem connected_groups_empty: "connected_groups k_ring [] = Some []"
  by (simp add: connected_groups_def groups_while.simps)

section \<open>The inner loop returns\<close>

lemma bfs_body_decreases:
  "fst (snd s) \<noteq> [] \<Longrightarrow>
   (bfs_body k_ring s, s) \<in> measures [\<lambda>s. length (fst s), \<lambda>s. length (fst (snd s))]"
proof -
  assume ne: "fst (snd s) \<noteq> []"
  obtain u q g where s: "s = (u, q, g)" by (cases s) auto
  from ne s obtain c q' where q: "q = c # q'" by (cases q) auto
  show ?thesis
  proof (cases "c \<in> set u")
    case True
    then have "length (removeAll c u) < length u" by (rule length_removeAll_less)
    with True show ?thesis by (simp add: s q)
  next
    case False
    then show ?thesis by (simp add: s q)
  qed
qed

lemma bfs_after_Suc: "bfs_after (Suc n) k_ring s = bfs_after n k_ring (bfs_body k_ring s)"
  by (simp add: bfs_after_def funpow_swap1)

lemma bfs_while_returns:
  "\<exists>n. bfs_while k_ring s = Some (bfs_after n k_ring s) \<and> fst (snd (bfs_after n k_ring s)) = []"
proof (induction s rule: wf_induct_rule [OF wf_measures [of "[\<lambda>s. length (fst s), \<lambda>s. length (fst (snd s))]"]])
  case (1 s)
  show ?case
  proof (cases "fst (snd s) = []")
    case True
    then have "bfs_while k_ring s = Some (bfs_after 0 k_ring s)"
      by (simp add: bfs_while.simps bfs_after_def)
    moreover from True have "fst (snd (bfs_after 0 k_ring s)) = []"
      by (simp add: bfs_after_def)
    ultimately show ?thesis by blast
  next
    case False
    then have "(bfs_body k_ring s, s) \<in> measures [\<lambda>s. length (fst s), \<lambda>s. length (fst (snd s))]"
      by (rule bfs_body_decreases)
    from 1 [OF this] obtain n where
      n: "bfs_while k_ring (bfs_body k_ring s) = Some (bfs_after n k_ring (bfs_body k_ring s))"
         "fst (snd (bfs_after n k_ring (bfs_body k_ring s))) = []"
      by blast
    from False have "bfs_while k_ring s = bfs_while k_ring (bfs_body k_ring s)"
      by (subst bfs_while.simps) simp
    with n have "bfs_while k_ring s = Some (bfs_after (Suc n) k_ring s)"
      "fst (snd (bfs_after (Suc n) k_ring s)) = []"
      by (simp_all add: bfs_after_Suc)
    then show ?thesis by blast
  qed
qed

section \<open>The inner loop collects the cells reachable from its start\<close>

lemma reach_refl: "a \<in> reach k_ring C a"
  by (simp add: reach_def)

lemma reach_step:
  "a \<in> reach k_ring C start \<Longrightarrow> a \<in> C \<Longrightarrow> b \<in> C \<Longrightarrow> b \<in> set (k_ring a) \<Longrightarrow>
   b \<in> reach k_ring C start"
  unfolding reach_def edges_def
  by (auto intro: rtrancl_into_rtrancl)

lemma reach_subset: "start \<in> C \<Longrightarrow> reach k_ring C start \<subseteq> C"
proof
  fix x assume "start \<in> C" "x \<in> reach k_ring C start"
  then have "(start, x) \<in> (edges k_ring C)\<^sup>*" by (simp add: reach_def)
  then show "x \<in> C" using \<open>start \<in> C\<close>
    by (induction rule: rtrancl_induct) (auto simp: edges_def)
qed

lemma bfs_inv_init: "start \<in> set unvisited \<Longrightarrow> bfs_inv k_ring (set unvisited) start (unvisited, [start], {})"
  by (simp add: bfs_inv_def reach_refl)

lemma bfs_inv_body:
  assumes inv: "bfs_inv k_ring C start s" and start: "start \<in> C"
  shows "bfs_inv k_ring C start (bfs_body k_ring s)"
proof -
  obtain u q g where s: "s = (u, q, g)" by (cases s) auto
  show ?thesis
  proof (cases q)
    case Nil
    with inv s show ?thesis by simp
  next
    case (Cons c q')
    from inv s Cons have inv':
      "g \<union> set u = C \<and> g \<inter> set u = {} \<and>
        set (c # q') \<subseteq> reach k_ring C start \<and> g \<subseteq> reach k_ring C start \<and>
        (\<forall>a\<in>g. \<forall>b\<in>set (k_ring a). b \<in> C \<longrightarrow> b \<in> g \<or> b \<in> set (c # q')) \<and>
        (start \<in> g \<or> start \<in> set (c # q'))"
      by (simp add: bfs_inv_def)
    from inv' have cover: "g \<union> set u = C" and disj: "g \<inter> set u = {}"
      and gr: "g \<subseteq> reach k_ring C start" by blast+
    from inv' have qr: "set q' \<subseteq> reach k_ring C start" and cr: "c \<in> reach k_ring C start"
      by simp_all
    from inv' have closed: "\<forall>a\<in>g. \<forall>b\<in>set (k_ring a). b \<in> C \<longrightarrow> b \<in> g \<or> b = c \<or> b \<in> set q'"
      by simp
    from inv' have st: "start \<in> g \<or> start = c \<or> start \<in> set q'"
      by simp
    have cC: "c \<in> C" by (rule subsetD [OF reach_subset [OF start] cr])
    show ?thesis
    proof (cases "c \<in> set u")
      case True
      have new: "\<And>b. b \<in> set (removeAll c u) \<Longrightarrow> b \<in> set (k_ring c) \<Longrightarrow> b \<in> reach k_ring C start"
        using cr cC cover by (auto intro: reach_step)
      have "insert c g \<union> set (removeAll c u) = C" using cover True by auto
      moreover have "insert c g \<inter> set (removeAll c u) = {}" using disj by auto
      moreover have "set (q' @ filter (\<lambda>n. n \<in> set (removeAll c u)) (k_ring c)) \<subseteq> reach k_ring C start"
        using qr new by auto
      moreover have "insert c g \<subseteq> reach k_ring C start" using gr cr by auto
      moreover have "\<forall>a\<in>insert c g. \<forall>b\<in>set (k_ring a). b \<in> C \<longrightarrow>
          b \<in> insert c g \<or> b \<in> set (q' @ filter (\<lambda>n. n \<in> set (removeAll c u)) (k_ring c))"
        using closed cover by auto
      moreover have "start \<in> insert c g \<or> start \<in> set (q' @ filter (\<lambda>n. n \<in> set (removeAll c u)) (k_ring c))"
        using st by auto
      ultimately show ?thesis using True by (simp add: s Cons bfs_inv_def)
    next
      case False
      with cC cover have cg: "c \<in> g" by auto
      have "\<forall>a\<in>g. \<forall>b\<in>set (k_ring a). b \<in> C \<longrightarrow> b \<in> g \<or> b \<in> set q'"
        using closed cg by auto
      moreover have "start \<in> g \<or> start \<in> set q'" using st cg by auto
      ultimately show ?thesis using False cover disj qr gr by (simp add: s Cons bfs_inv_def)
    qed
  qed
qed

lemma bfs_inv_after:
  "bfs_inv k_ring C start s \<Longrightarrow> start \<in> C \<Longrightarrow> bfs_inv k_ring C start (bfs_after n k_ring s)"
  by (induction n) (simp_all add: bfs_after_def bfs_inv_body)

lemma bfs_inv_final:
  assumes inv: "bfs_inv k_ring C start (u, [], g)" and start: "start \<in> C"
  shows "g = reach k_ring C start" and "set u = C - reach k_ring C start"
proof -
  from inv have cover: "g \<union> set u = C" and disj: "g \<inter> set u = {}" and
      gr: "g \<subseteq> reach k_ring C start" and
      closed: "\<forall>a\<in>g. \<forall>b\<in>set (k_ring a). b \<in> C \<longrightarrow> b \<in> g" and
      st: "start \<in> g"
    by (auto simp: bfs_inv_def)
  have "x \<in> g" if "(start, x) \<in> (edges k_ring C)\<^sup>*" for x
    using that st closed by (induction rule: rtrancl_induct) (auto simp: edges_def)
  then have "reach k_ring C start \<subseteq> g" by (auto simp: reach_def)
  with gr show g: "g = reach k_ring C start" by auto
  with cover disj show "set u = C - reach k_ring C start" by auto
qed

lemma bfs_body_filter:
  assumes "fst s = filter (\<lambda>x. x \<notin> snd (snd s)) u0"
  shows "fst (bfs_body k_ring s) = filter (\<lambda>x. x \<notin> snd (snd (bfs_body k_ring s))) u0"
proof -
  obtain u q g where s: "s = (u, q, g)" using prod_cases3 by blast
  with assms have u: "u = filter (\<lambda>x. x \<notin> g) u0" by simp
  show ?thesis
  proof (cases q)
    case Nil
    with s u show ?thesis by simp
  next
    case (Cons c q')
    have "removeAll c (filter (\<lambda>x. x \<notin> g) u0) = filter (\<lambda>x. x \<notin> insert c g) u0"
      by (induction u0) auto
    with s u Cons show ?thesis by simp
  qed
qed

lemma bfs_after_filter:
  "fst s = filter (\<lambda>x. x \<notin> snd (snd s)) u0 \<Longrightarrow>
   fst (bfs_after n k_ring s) = filter (\<lambda>x. x \<notin> snd (snd (bfs_after n k_ring s))) u0"
  by (induction n) (simp_all add: bfs_after_def bfs_body_filter)

lemma bfs_while_result':
  assumes "start \<in> set unvisited"
  shows "bfs_while k_ring (unvisited, [start], {}) =
           Some (filter (\<lambda>x. x \<notin> reach k_ring (set unvisited) start) unvisited, [],
                 reach k_ring (set unvisited) start)"
proof -
  let ?s = "(unvisited, [start], {})"
  obtain n where n: "bfs_while k_ring ?s = Some (bfs_after n k_ring ?s)"
    "fst (snd (bfs_after n k_ring ?s)) = []"
    using bfs_while_returns [of k_ring ?s] by (elim exE conjE)
  obtain u q g where f: "bfs_after n k_ring ?s = (u, q, g)"
    using prod_cases3 by blast
  with n(2) have q: "q = []" by simp
  have "bfs_inv k_ring (set unvisited) start (bfs_after n k_ring ?s)"
    by (rule bfs_inv_after [OF bfs_inv_init [OF assms] assms])
  with f q have "bfs_inv k_ring (set unvisited) start (u, [], g)" by simp
  from bfs_inv_final(1) [OF this assms] have g: "g = reach k_ring (set unvisited) start" .
  have "fst (bfs_after n k_ring ?s) = filter (\<lambda>x. x \<notin> snd (snd (bfs_after n k_ring ?s))) unvisited"
    by (rule bfs_after_filter) simp
  with f have "u = filter (\<lambda>x. x \<notin> g) unvisited" by simp
  with n(1) f q g show ?thesis by simp
qed

section \<open>Symmetric oracles\<close>

lemma sym_edges: "symmetric_on k_ring C \<Longrightarrow> sym (edges k_ring C)"
  by (auto simp: symmetric_on_def edges_def sym_def)

lemma symmetric_on_subset: "symmetric_on k_ring C \<Longrightarrow> D \<subseteq> C \<Longrightarrow> symmetric_on k_ring D"
  by (auto simp: symmetric_on_def)

lemma reach_sym: "symmetric_on k_ring C \<Longrightarrow> b \<in> reach k_ring C a \<Longrightarrow> a \<in> reach k_ring C b"
  using sym_rtrancl [OF sym_edges, of k_ring C] by (auto simp: reach_def sym_def)

lemma reach_trans: "b \<in> reach k_ring C a \<Longrightarrow> c \<in> reach k_ring C b \<Longrightarrow> c \<in> reach k_ring C a"
  by (auto simp: reach_def)

lemma reach_class:
  assumes "symmetric_on k_ring C" "b \<in> reach k_ring C a"
  shows "reach k_ring C b = reach k_ring C a"
  using assms reach_sym [OF assms] by (blast intro: reach_trans)

lemma reach_restrict:
  assumes sym: "symmetric_on k_ring C" and c: "c \<in> C" "c \<notin> reach k_ring C start"
  shows "reach k_ring (C - reach k_ring C start) c = reach k_ring C c"
proof
  let ?D = "C - reach k_ring C start"
  have "edges k_ring ?D \<subseteq> edges k_ring C" by (auto simp: edges_def)
  then have "(edges k_ring ?D)\<^sup>* \<subseteq> (edges k_ring C)\<^sup>*" by (rule rtrancl_mono)
  then show "reach k_ring ?D c \<subseteq> reach k_ring C c" by (auto simp: reach_def)
  have "(c, y) \<in> (edges k_ring ?D)\<^sup>* \<and> y \<in> ?D" if "(c, y) \<in> (edges k_ring C)\<^sup>*" for y
    using that
  proof (induction rule: rtrancl_induct)
    case base
    from c show ?case by simp
  next
    case (step y z)
    from step.hyps(2) have yz: "y \<in> C" "z \<in> C" "z \<in> set (k_ring y)" by (auto simp: edges_def)
    from step.IH have y: "y \<in> ?D" by simp
    have "z \<notin> reach k_ring C start"
    proof
      assume z: "z \<in> reach k_ring C start"
      from sym yz have "y \<in> set (k_ring z)" by (auto simp: symmetric_on_def)
      from reach_step [OF z yz(2) yz(1) this] y show False by simp
    qed
    with yz y have "(y, z) \<in> edges k_ring ?D" "z \<in> ?D" by (auto simp: edges_def)
    with step.IH show ?case by (auto intro: rtrancl_into_rtrancl)
  qed
  then show "reach k_ring C c \<subseteq> reach k_ring ?D c" by (auto simp: reach_def)
qed

section \<open>The outer loop\<close>

lemma groups_while_step:
  assumes u: "unvisited = start # rest"
  shows "groups_while k_ring unvisited gs =
         groups_while k_ring (filter (\<lambda>x. x \<notin> reach k_ring (set unvisited) start) unvisited)
           (gs @ [reach k_ring (set unvisited) start])"
proof -
  from u have start: "start \<in> set unvisited" by simp
  have ne: "reach k_ring (set unvisited) start \<noteq> {}" using reach_refl [of start] by blast
  have "groups_while k_ring unvisited gs =
        Option.bind (bfs_while k_ring (unvisited, [start], {}))
          (\<lambda>(unvisited', queue, group_set).
             groups_while k_ring unvisited' (if group_set \<noteq> {} then gs @ [group_set] else gs))"
    by (subst groups_while.simps) (simp add: u)
  also have "\<dots> = groups_while k_ring (filter (\<lambda>x. x \<notin> reach k_ring (set unvisited) start) unvisited)
           (gs @ [reach k_ring (set unvisited) start])"
    by (simp add: bfs_while_result' [OF start] ne)
  finally show ?thesis .
qed

lemma groups_while_result:
  "\<exists>res. groups_while k_ring unvisited gs = Some (gs @ res) \<and> {} \<notin> set res \<and>
     (\<forall>c. length (filter (\<lambda>g. c \<in> g) res) = (if c \<in> set unvisited then 1 else 0)) \<and>
     (symmetric_on k_ring (set unvisited) \<longrightarrow>
        set res = reach k_ring (set unvisited) ` set unvisited)"
proof (induction unvisited arbitrary: gs rule: length_induct)
  case (1 u)
  show ?case
  proof (cases u)
    case Nil
    then have "groups_while k_ring u gs = Some (gs @ [])" by (simp add: groups_while.simps)
    with Nil show ?thesis by auto
  next
    case (Cons start rest)
    let ?R = "reach k_ring (set u) start"
    let ?u' = "filter (\<lambda>x. x \<notin> ?R) u"
    from Cons have start: "start \<in> set u" by simp
    have sR: "start \<in> ?R" by (rule reach_refl)
    have RC: "?R \<subseteq> set u" by (rule reach_subset [OF start])
    have "length ?u' < length u" using start sR by (simp add: length_filter_less)
    with 1 obtain res' where res':
      "groups_while k_ring ?u' (gs @ [?R]) = Some ((gs @ [?R]) @ res')" "{} \<notin> set res'"
      "\<forall>c. length (filter (\<lambda>g. c \<in> g) res') = (if c \<in> set ?u' then 1 else 0)"
      "symmetric_on k_ring (set ?u') \<longrightarrow> set res' = reach k_ring (set ?u') ` set ?u'"
      by blast
    have eq: "groups_while k_ring u gs = Some (gs @ (?R # res'))"
      using groups_while_step [OF Cons, of k_ring gs] res'(1) by simp
    have ne: "{} \<notin> set (?R # res')" using res'(2) sR by auto
    have cnt: "\<forall>c. length (filter (\<lambda>g. c \<in> g) (?R # res')) = (if c \<in> set u then 1 else 0)"
    proof
      fix c
      from res'(3) have "length (filter (\<lambda>g. c \<in> g) res') = (if c \<in> set ?u' then 1 else 0)"
        by (rule spec)
      with RC show "length (filter (\<lambda>g. c \<in> g) (?R # res')) = (if c \<in> set u then 1 else 0)"
        by auto
    qed
    have symm: "set (?R # res') = reach k_ring (set u) ` set u" if sym: "symmetric_on k_ring (set u)"
    proof -
      have D: "set ?u' = set u - ?R" by auto
      from sym have "symmetric_on k_ring (set ?u')" by (rule symmetric_on_subset) auto
      with res'(4) have "set res' = reach k_ring (set ?u') ` set ?u'" by blast
      then have r: "set res' = reach k_ring (set u - ?R) ` (set u - ?R)" unfolding D .
      have a: "reach k_ring (set u - ?R) c = reach k_ring (set u) c" if "c \<in> set u - ?R" for c
        using reach_restrict [OF sym, of c start] that by simp
      have b: "reach k_ring (set u) c = ?R" if "c \<in> ?R" for c
        using reach_class [OF sym that] .
      from a have r': "set res' = reach k_ring (set u) ` (set u - ?R)"
        unfolding r by (rule image_cong [OF refl])
      show ?thesis
      proof (rule set_eqI)
        fix X
        show "X \<in> set (?R # res') \<longleftrightarrow> X \<in> reach k_ring (set u) ` set u"
        proof
          assume "X \<in> set (?R # res')"
          then have "X = ?R \<or> X \<in> reach k_ring (set u) ` (set u - ?R)" using r' by simp
          with start show "X \<in> reach k_ring (set u) ` set u" by blast
        next
          assume "X \<in> reach k_ring (set u) ` set u"
          then obtain c where c: "c \<in> set u" "X = reach k_ring (set u) c" by blast
          show "X \<in> set (?R # res')"
          proof (cases "c \<in> ?R")
            case True
            with b c show ?thesis by simp
          next
            case False
            with c have "X \<in> reach k_ring (set u) ` (set u - ?R)" by blast
            with r' show ?thesis by simp
          qed
        qed
      qed
    qed
    show ?thesis
    proof (intro exI [of _ "?R # res'"] conjI impI)
      show "groups_while k_ring u gs = Some (gs @ ?R # res')" by (rule eq)
      show "{} \<notin> set (?R # res')" by (rule ne)
      show "\<forall>c. length (filter (\<lambda>g. c \<in> g) (?R # res')) = (if c \<in> set u then 1 else 0)" by (rule cnt)
      show "set (?R # res') = reach k_ring (set u) ` set u" if "symmetric_on k_ring (set u)"
        using that by (rule symm)
    qed
  qed
qed

lemma filter_two:
  assumes "i < j" "j < length xs" "P (xs ! i)" "P (xs ! j)"
  shows "2 \<le> length (filter P xs)"
proof -
  have "xs ! i \<in> set (take j xs)"
    using assms(1,2) by (auto simp: in_set_conv_nth intro!: exI [of _ i])
  with assms(3) have "filter P (take j xs) \<noteq> []" by (auto simp: filter_empty_conv)
  then have a: "1 \<le> length (filter P (take j xs))" by (cases "filter P (take j xs)") auto
  have "xs ! j \<in> set (drop j xs)"
    using assms(2) by (auto simp: in_set_conv_nth intro!: exI [of _ 0])
  with assms(4) have "filter P (drop j xs) \<noteq> []" by (auto simp: filter_empty_conv)
  then have b: "1 \<le> length (filter P (drop j xs))" by (cases "filter P (drop j xs)") auto
  have "length (filter P xs) = length (filter P (take j xs)) + length (filter P (drop j xs))"
    by (metis append_take_drop_id filter_append length_append)
  with a b show ?thesis by simp
qed

lemma connected_groups_result:
  "\<exists>gs. connected_groups k_ring all_hexes = Some gs \<and> {} \<notin> set gs \<and>
     (\<forall>c. length (filter (\<lambda>g. c \<in> g) gs) = (if c \<in> set all_hexes then 1 else 0)) \<and>
     (symmetric_on k_ring (set all_hexes) \<longrightarrow>
        set gs = reach k_ring (set all_hexes) ` set all_hexes)"
  using groups_while_result [of k_ring all_hexes "[]"] by (simp add: connected_groups_def)

lemma scenario_groups:
  "connected_groups scenario_ring [1, 2, 3, 4, 5] = Some [{3, 2, 1}, {5, 4}]"
  by (simp add: connected_groups_def groups_while.simps bfs_while.simps scenario_ring_def)

lemma scenario_groups_reordered:
  "connected_groups scenario_ring [5, 3, 4, 1, 2] = Some [{4, 5}, {1, 2, 3}]"
  by (simp add: connected_groups_def groups_while.simps bfs_while.simps scenario_ring_def)

lemma scenario_symmetric: "symmetric_on scenario_ring (set [1, 2, 3, 4, 5])"
  by (simp add: symmetric_on_def scenario_ring_def)

lemma triangle_after_1: "bfs_after 1 triangle_ring ([1, 2, 3], [1], {}) = ([2, 3], [2, 3], {1})"
  by (simp add: bfs_after_def triangle_ring_def)

lemma triangle_after_2: "bfs_after 2 triangle_ring ([1, 2, 3], [1], {}) = ([3], [3, 3], {2, 1})"
  by (simp add: bfs_after_def numeral_2_eq_2 triangle_ring_def)

section \<open>Partition\<close>

text \<open>C1: for every input list of cells and every oracle, the grouping returns a list of
  non-empty groups; every input cell lies in exactly one group of the list, two groups at
  different positions are disjoint, and the union of the groups is the input set, so no
  cell outside the input appears in a group, whatever the oracle returns.\<close>

theorem connected_groups_partition:
  "\<exists>gs. connected_groups k_ring all_hexes = Some gs \<and>
     {} \<notin> set gs \<and>
     (\<forall>c\<in>set all_hexes. length (filter (\<lambda>g. c \<in> g) gs) = 1) \<and>
     (\<forall>i j. i < j \<and> j < length gs \<longrightarrow> gs ! i \<inter> gs ! j = {}) \<and>
     \<Union> (set gs) = set all_hexes"
proof -
  obtain gs where gs: "connected_groups k_ring all_hexes = Some gs" "{} \<notin> set gs"
    and cnt: "\<And>c. length (filter (\<lambda>g. c \<in> g) gs) = (if c \<in> set all_hexes then 1 else 0)"
    using connected_groups_result [of k_ring all_hexes] by blast
  have one: "\<forall>c\<in>set all_hexes. length (filter (\<lambda>g. c \<in> g) gs) = 1"
    by (simp add: cnt)
  have disj: "gs ! i \<inter> gs ! j = {}" if "i < j" "j < length gs" for i j
  proof (rule ccontr)
    assume "gs ! i \<inter> gs ! j \<noteq> {}"
    then obtain c where "c \<in> gs ! i" "c \<in> gs ! j" by blast
    with that have "2 \<le> length (filter (\<lambda>g. c \<in> g) gs)" by (intro filter_two)
    with cnt [of c] show False by (simp split: if_splits)
  qed
  have un: "\<Union> (set gs) = set all_hexes"
  proof (rule set_eqI)
    fix c
    have "c \<in> \<Union> (set gs) \<longleftrightarrow> filter (\<lambda>g. c \<in> g) gs \<noteq> []"
      by (auto simp: filter_empty_conv)
    also have "\<dots> \<longleftrightarrow> c \<in> set all_hexes"
      using cnt [of c] by (auto split: if_splits)
    finally show "c \<in> \<Union> (set gs) \<longleftrightarrow> c \<in> set all_hexes" .
  qed
  from gs one disj un show ?thesis by blast
qed

text \<open>The theorem at a concrete input.\<close>

theorem connected_groups_partition_witness:
  "connected_groups scenario_ring [1, 2, 3, 4, 5] = Some [{3, 2, 1}, {5, 4}] \<and>
   {} \<notin> set [{3, 2, 1}, {5, 4 :: nat}] \<and>
   length (filter (\<lambda>g. (4::nat) \<in> g) [{3, 2, 1}, {5, 4}]) = 1 \<and>
   [{3, 2, 1}, {5, 4 :: nat}] ! 0 \<inter> [{3, 2, 1}, {5, 4}] ! 1 = {} \<and>
   \<Union> (set [{3, 2, 1}, {5, 4}]) = set [1, 2, 3, 4, 5 :: nat]"
proof -
  let ?G = "[{3, 2, 1}, {5, 4 :: nat}]"
  from connected_groups_partition [of scenario_ring "[1, 2, 3, 4, 5]"]
  obtain gs where gs: "Some ?G = Some gs" and ne: "{} \<notin> set gs"
    and one: "\<forall>c\<in>set [1, 2, 3, 4, 5]. length (filter (\<lambda>g. c \<in> g) gs) = 1"
    and disj: "\<forall>i j. i < j \<and> j < length gs \<longrightarrow> gs ! i \<inter> gs ! j = {}"
    and un: "\<Union> (set gs) = set [1, 2, 3, 4, 5]"
    unfolding scenario_groups by blast
  from gs have G: "gs = ?G" by simp
  have "(4::nat) \<in> set [1, 2, 3, 4, 5]" by simp
  with one have a: "length (filter (\<lambda>g. (4::nat) \<in> g) gs) = 1" by (rule bspec)
  have "(0::nat) < 1 \<and> 1 < length ?G" by simp
  with disj have b: "gs ! 0 \<inter> gs ! 1 = {}" unfolding G by blast
  show ?thesis
    using scenario_groups ne a b un unfolding G by (intro conjI)
qed

section \<open>Groups and chains\<close>

lemma is_chain_snoc:
  "is_chain k_ring C a (cs @ [z]) \<longleftrightarrow>
   is_chain k_ring C a cs \<and> z \<in> set (k_ring (last (a # cs))) \<and> z \<in> C"
  by (induction cs arbitrary: a) auto

lemma reach_iff_chain:
  assumes "a \<in> C"
  shows "b \<in> reach k_ring C a \<longleftrightarrow> (\<exists>cs. is_chain k_ring C a cs \<and> last (a # cs) = b)"
proof
  assume "b \<in> reach k_ring C a"
  then have "(a, b) \<in> (edges k_ring C)\<^sup>*" by (simp add: reach_def)
  then show "\<exists>cs. is_chain k_ring C a cs \<and> last (a # cs) = b"
  proof (induction rule: rtrancl_induct)
    case base
    have "is_chain k_ring C a [] \<and> last (a # []) = a" by simp
    then show ?case by blast
  next
    case (step y z)
    then obtain cs where cs: "is_chain k_ring C a cs" "last (a # cs) = y" by blast
    from step.hyps(2) have "z \<in> set (k_ring y)" "z \<in> C" by (auto simp: edges_def)
    with cs have "is_chain k_ring C a (cs @ [z]) \<and> last (a # (cs @ [z])) = z"
      by (simp add: is_chain_snoc)
    then show ?case by blast
  qed
next
  assume "\<exists>cs. is_chain k_ring C a cs \<and> last (a # cs) = b"
  then obtain cs where "is_chain k_ring C a cs" "last (a # cs) = b" by blast
  with assms show "b \<in> reach k_ring C a"
  proof (induction cs arbitrary: a)
    case Nil
    then show ?case by (simp add: reach_refl)
  next
    case (Cons y cs)
    from Cons.prems have y: "y \<in> set (k_ring a)" "y \<in> C" "is_chain k_ring C y cs" "last (y # cs) = b"
      by simp_all
    from Cons.IH [OF y(2,3,4)] have "(y, b) \<in> (edges k_ring C)\<^sup>*" by (simp add: reach_def)
    moreover from y Cons.prems(1) have "(a, y) \<in> edges k_ring C" by (simp add: edges_def)
    ultimately show ?case by (auto simp: reach_def intro: converse_rtrancl_into_rtrancl)
  qed
qed

lemma reach_isolated:
  assumes "set (k_ring a) \<inter> C \<subseteq> {a}"
  shows "reach k_ring C a = {a}"
proof -
  have "b = a" if "(a, b) \<in> (edges k_ring C)\<^sup>*" for b
    using that assms by (induction rule: rtrancl_induct) (auto simp: edges_def)
  then show ?thesis using reach_refl [of a k_ring C] by (auto simp: reach_def)
qed

text \<open>C2: the oracle of the source is \<open>h3.k_ring\<close>, whose adjacency goes both ways;
  for an oracle that is symmetric on the input set, two input cells
  \<open>a\<close> and \<open>b\<close> are in the same group if and only if there is a chain from \<open>a\<close> to
  \<open>b\<close> whose every cell is a neighbour of the previous one and lies in the input set;
  a cell whose neighbours within the input set are at most itself forms the group
  \<open>{a}\<close>.\<close>

theorem same_group_iff_chain:
  assumes sym: "symmetric_on k_ring (set all_hexes)"
    and a: "a \<in> set all_hexes" and b: "b \<in> set all_hexes"
  shows "\<exists>gs. connected_groups k_ring all_hexes = Some gs \<and>
           ((\<exists>g\<in>set gs. a \<in> g \<and> b \<in> g) \<longleftrightarrow>
            (\<exists>cs. is_chain k_ring (set all_hexes) a cs \<and> last (a # cs) = b)) \<and>
           (set (k_ring a) \<inter> set all_hexes \<subseteq> {a} \<longrightarrow> {a} \<in> set gs)"
proof -
  let ?C = "set all_hexes"
  obtain gs where gs: "connected_groups k_ring all_hexes = Some gs"
    and cls: "set gs = reach k_ring ?C ` ?C"
    using connected_groups_result [of k_ring all_hexes] sym by blast
  have "(\<exists>g\<in>set gs. a \<in> g \<and> b \<in> g) \<longleftrightarrow> b \<in> reach k_ring ?C a"
  proof
    assume "\<exists>g\<in>set gs. a \<in> g \<and> b \<in> g"
    then obtain c where c: "c \<in> ?C" "a \<in> reach k_ring ?C c" "b \<in> reach k_ring ?C c"
      unfolding cls by blast
    from reach_class [OF sym c(2)] c(3) show "b \<in> reach k_ring ?C a" by simp
  next
    assume "b \<in> reach k_ring ?C a"
    moreover have "a \<in> reach k_ring ?C a" by (rule reach_refl)
    moreover have "reach k_ring ?C a \<in> set gs" unfolding cls using a by blast
    ultimately show "\<exists>g\<in>set gs. a \<in> g \<and> b \<in> g" by blast
  qed
  then have chain: "(\<exists>g\<in>set gs. a \<in> g \<and> b \<in> g) \<longleftrightarrow>
      (\<exists>cs. is_chain k_ring ?C a cs \<and> last (a # cs) = b)"
    by (simp only: reach_iff_chain [OF a])
  have single: "{a} \<in> set gs" if "set (k_ring a) \<inter> ?C \<subseteq> {a}"
  proof -
    from that have "reach k_ring ?C a = {a}" by (rule reach_isolated)
    moreover have "reach k_ring ?C a \<in> set gs" unfolding cls using a by blast
    ultimately show ?thesis by simp
  qed
  from gs chain single show ?thesis by blast
qed

text \<open>The theorem at a concrete input.\<close>

theorem same_group_iff_chain_witness:
  "symmetric_on scenario_ring (set [1, 2, 3, 4, 5]) \<and> (1::nat) \<in> set [1, 2, 3, 4, 5] \<and>
   (3::nat) \<in> set [1, 2, 3, 4, 5] \<and>
   ((\<exists>g\<in>set [{3, 2, 1}, {5, 4}]. (1::nat) \<in> g \<and> 3 \<in> g) \<longleftrightarrow>
    (\<exists>cs. is_chain scenario_ring (set [1, 2, 3, 4, 5]) 1 cs \<and> last (1 # cs) = 3)) \<and>
   is_chain scenario_ring (set [1, 2, 3, 4, 5]) 1 [2, 3]"
proof -
  have m: "(1::nat) \<in> set [1, 2, 3, 4, 5]" "(3::nat) \<in> set [1, 2, 3, 4, 5]" by simp_all
  have c: "is_chain scenario_ring (set [1, 2, 3, 4, 5]) 1 [2, 3]"
    by (simp add: scenario_ring_def)
  from same_group_iff_chain [OF scenario_symmetric m] scenario_symmetric m c
  show ?thesis unfolding scenario_groups by (elim exE conjE) (simp only: option.inject simp_thms)
qed

section \<open>Order of the input\<close>

text \<open>C6: the oracle of the source is \<open>h3.k_ring\<close>, whose adjacency goes both ways;
  for an oracle that is symmetric on the input set, two iteration
  orders of the same input set give the same set of groups.\<close>

theorem groups_order_independent:
  assumes sym: "symmetric_on k_ring (set all_hexes)"
    and perm: "set all_hexes' = set all_hexes"
  shows "\<exists>gs gs'. connected_groups k_ring all_hexes = Some gs \<and>
           connected_groups k_ring all_hexes' = Some gs' \<and> set gs' = set gs"
proof -
  obtain gs where gs: "connected_groups k_ring all_hexes = Some gs"
    "set gs = reach k_ring (set all_hexes) ` set all_hexes"
    using connected_groups_result [of k_ring all_hexes] sym by blast
  from sym perm have "symmetric_on k_ring (set all_hexes')" by simp
  then obtain gs' where gs': "connected_groups k_ring all_hexes' = Some gs'"
    "set gs' = reach k_ring (set all_hexes') ` set all_hexes'"
    using connected_groups_result [of k_ring all_hexes'] by blast
  from gs gs' perm show ?thesis by simp
qed

text \<open>The theorem at a concrete input.\<close>

theorem groups_order_independent_witness:
  "symmetric_on scenario_ring (set [1, 2, 3, 4, 5]) \<and>
   set [5, 3, 4, 1, 2] = set [1, 2, 3, 4, 5 :: nat] \<and>
   connected_groups scenario_ring [1, 2, 3, 4, 5] = Some [{3, 2, 1}, {5, 4}] \<and>
   connected_groups scenario_ring [5, 3, 4, 1, 2] = Some [{4, 5}, {1, 2, 3}] \<and>
   set [{4, 5}, {1, 2, 3 :: nat}] = set [{3, 2, 1}, {5, 4}]"
proof -
  have p: "set [5, 3, 4, 1, 2] = set [1, 2, 3, 4, 5 :: nat]" by auto
  from groups_order_independent [OF scenario_symmetric p] scenario_symmetric p
  show ?thesis unfolding scenario_groups scenario_groups_reordered
    by (elim exE conjE) (simp only: option.inject simp_thms)
qed

section \<open>Termination\<close>

text \<open>C9: the inner loop returns from every state, after finitely many passes through
  its body and with an empty queue; the grouping returns for every input list and every
  oracle, and every input cell is in exactly one group of the result.\<close>

theorem connected_groups_terminates:
  "(\<exists>n. bfs_while k_ring s = Some (bfs_after n k_ring s) \<and> fst (snd (bfs_after n k_ring s)) = []) \<and>
   (\<exists>gs. connected_groups k_ring all_hexes = Some gs \<and>
      (\<forall>c\<in>set all_hexes. length (filter (\<lambda>g. c \<in> g) gs) = 1))"
proof -
  obtain gs where "connected_groups k_ring all_hexes = Some gs"
    and "\<And>c. length (filter (\<lambda>g. c \<in> g) gs) = (if c \<in> set all_hexes then 1 else 0)"
    using connected_groups_result [of k_ring all_hexes] by blast
  then have "\<exists>gs. connected_groups k_ring all_hexes = Some gs \<and>
      (\<forall>c\<in>set all_hexes. length (filter (\<lambda>g. c \<in> g) gs) = 1)"
    by simp
  with bfs_while_returns [of k_ring s] show ?thesis by blast
qed

text \<open>The theorem at a concrete input.\<close>

theorem connected_groups_terminates_witness:
  "bfs_while scenario_ring ([1, 2, 3, 4, 5], [1], {}) = Some ([4, 5], [], {3, 2, 1}) \<and>
   fst (snd ([4, 5 :: nat], [] :: nat list, {3, 2, 1 :: nat})) = [] \<and>
   connected_groups scenario_ring [1, 2, 3, 4, 5] = Some [{3, 2, 1}, {5, 4}] \<and>
   length (filter (\<lambda>g. (2::nat) \<in> g) [{3, 2, 1}, {5, 4}]) = 1"
proof -
  let ?G = "[{3, 2, 1}, {5, 4 :: nat}]"
  let ?s = "([1, 2, 3, 4, 5 :: nat], [1 :: nat], {} :: nat set)"
  have w: "bfs_while scenario_ring ?s = Some ([4, 5], [], {3, 2, 1})"
    by (simp add: bfs_while.simps scenario_ring_def)
  from connected_groups_terminates [of scenario_ring ?s "[1, 2, 3, 4, 5]"]
  obtain n gs where n: "Some ([4, 5], [], {3, 2, 1}) = Some (bfs_after n scenario_ring ?s)"
      "fst (snd (bfs_after n scenario_ring ?s)) = []"
    and gs: "Some ?G = Some gs"
    and one: "\<forall>c\<in>set [1, 2, 3, 4, 5]. length (filter (\<lambda>g. c \<in> g) gs) = 1"
    unfolding scenario_groups w by blast
  from gs have G: "gs = ?G" by simp
  from n(1) have N: "bfs_after n scenario_ring ?s = ([4, 5], [], {3, 2, 1})" by simp
  have "(2::nat) \<in> set [1, 2, 3, 4, 5]" by simp
  with one have a: "length (filter (\<lambda>g. (2::nat) \<in> g) gs) = 1" by (rule bspec)
  show ?thesis
    using w n(2) scenario_groups a unfolding G N by (intro conjI)
qed

section \<open>Queue discipline\<close>

text \<open>C3 (amended): in every state that the inner loop reaches, group and unvisited set
  are disjoint. A cell is removed from the unvisited set when it is dequeued and found
  unvisited: it is then new to the group, and the cells appended to the queue stay in
  the unvisited set. A dequeued cell that is no longer unvisited is already in the group
  and is skipped: only the queue changes.\<close>

theorem bfs_removes_on_dequeue:
  assumes start: "start \<in> set all_hexes"
    and reached: "bfs_after n k_ring (all_hexes, [start], {}) = (unvisited, current_hex # queue, group_set)"
    and body: "bfs_body k_ring (unvisited, current_hex # queue, group_set) = (unvisited', queue', group_set')"
  shows "group_set \<inter> set unvisited = {} \<and>
         (if current_hex \<in> set unvisited
          then current_hex \<notin> group_set \<and> group_set' = insert current_hex group_set \<and>
               set unvisited' = set unvisited - {current_hex} \<and>
               (\<exists>new. queue' = queue @ new \<and> set new \<subseteq> set unvisited')
          else current_hex \<in> group_set \<and> group_set' = group_set \<and>
               unvisited' = unvisited \<and> queue' = queue)"
proof -
  have "bfs_inv k_ring (set all_hexes) start (bfs_after n k_ring (all_hexes, [start], {}))"
    by (rule bfs_inv_after [OF bfs_inv_init [OF start] start])
  then have inv: "bfs_inv k_ring (set all_hexes) start (unvisited, current_hex # queue, group_set)"
    by (simp only: reached)
  then have cover: "group_set \<union> set unvisited = set all_hexes"
    and disj: "group_set \<inter> set unvisited = {}"
    and cr: "current_hex \<in> reach k_ring (set all_hexes) start"
    by (simp_all add: bfs_inv_def)
  have cC: "current_hex \<in> set all_hexes" by (rule subsetD [OF reach_subset [OF start] cr])
  show ?thesis
  proof (cases "current_hex \<in> set unvisited")
    case True
    with disj have "current_hex \<notin> group_set" by blast
    moreover from True body have "group_set' = insert current_hex group_set"
      "unvisited' = removeAll current_hex unvisited"
      "queue' = queue @ filter (\<lambda>x. x \<in> set unvisited') (k_ring current_hex)"
      by auto
    moreover have "set (filter (\<lambda>x. x \<in> set unvisited') (k_ring current_hex)) \<subseteq> set unvisited'"
      by auto
    ultimately show ?thesis using True disj by auto
  next
    case False
    with cC cover have "current_hex \<in> group_set" by blast
    with False body disj show ?thesis by auto
  qed
qed

text \<open>The theorem at a concrete input.\<close>

theorem bfs_removes_on_dequeue_witness:
  "(1::nat) \<in> set [1, 2, 3] \<and>
   bfs_after 1 triangle_ring ([1, 2, 3], [1], {}) = ([2, 3], [2, 3], {1}) \<and>
   bfs_body triangle_ring ([2, 3], [2, 3], {1}) = ([3], [3, 3], {2, 1}) \<and>
   ({1::nat} \<inter> set [2, 3] = {} \<and>
    (if (2::nat) \<in> set [2, 3]
     then (2::nat) \<notin> {1} \<and> {2, 1 :: nat} = insert 2 {1} \<and>
          set [3::nat] = set [2, 3] - {2} \<and>
          (\<exists>new. [3, 3 :: nat] = [3] @ new \<and> set new \<subseteq> set [3])
     else (2::nat) \<in> {1} \<and> {2, 1 :: nat} = {1} \<and> [3::nat] = [2, 3] \<and> [3, 3 :: nat] = [3]))"
proof -
  have s: "(1::nat) \<in> set [1, 2, 3]" by simp
  have b: "bfs_body triangle_ring ([2, 3], [2, 3], {1}) = ([3], [3, 3], {2, 1})"
    by (simp add: triangle_ring_def)
  show ?thesis
    by (rule conjI, rule s, rule conjI, rule triangle_after_1, rule conjI, rule b,
        rule bfs_removes_on_dequeue [OF s triangle_after_1 b])
qed

text \<open>C3 as stated fails on three mutually adjacent cells: after the first pass cell 3
  is in the queue and still unvisited, and after the second pass the queue holds cell 3
  twice.\<close>

theorem queue_duplicate_counterexample:
  "bfs_after 1 triangle_ring ([1, 2, 3], [1], {}) = ([2, 3], [2, 3], {1}) \<and>
   bfs_after 2 triangle_ring ([1, 2, 3], [1], {}) = ([3], [3, 3], {2, 1}) \<and>
   \<not> distinct [3, 3 :: nat] \<and> (3::nat) \<in> set [2, 3]"
  using triangle_after_1 triangle_after_2 by simp

section \<open>Identifiers are injective\<close>

lemma str_nat_numeral [simp]:
  "str_nat (numeral v) = (if (numeral v :: nat) < 10 then [digit (numeral v)]
     else str_nat (numeral v div 10) @ [digit (numeral v mod 10)])"
  by (rule str_nat.simps)

lemma str_nat_0 [simp]: "str_nat 0 = ''0''"
  by (simp add: str_nat.simps digit_def)

lemma str_nat_1 [simp]: "str_nat (Suc 0) = ''1''"
  by (simp add: str_nat.simps digit_def)

lemma digit_inj: "i < 10 \<Longrightarrow> j < 10 \<Longrightarrow> digit i = digit j \<Longrightarrow> i = j"
proof -
  assume a: "i < 10" "j < 10" "digit i = digit j"
  have d: "distinct ''0123456789''" by simp
  have l: "length ''0123456789'' = 10" by simp
  from a l have "i < length ''0123456789''" "j < length ''0123456789''" by simp_all
  with a(3) d show "i = j" unfolding digit_def by (simp only: nth_eq_iff_index_eq)
qed

lemma digit_in: "d < 10 \<Longrightarrow> digit d \<in> digit_chars"
  unfolding digit_def digit_chars_def by (rule nth_mem) simp

lemma sep_not_digit: "CHR ''_'' \<notin> digit_chars"
  by (simp add: digit_chars_def)

lemma minus_not_digit: "CHR ''-'' \<notin> digit_chars"
  by (simp add: digit_chars_def)

lemma str_nat_digits: "set (str_nat n) \<subseteq> digit_chars"
proof (induction n rule: str_nat.induct)
  case (1 n)
  show ?case
  proof (cases "n < 10")
    case True
    have "str_nat n = [digit n]" using True by (subst str_nat.simps) simp
    with digit_in [OF True] show ?thesis by simp
  next
    case False
    have e: "str_nat n = str_nat (n div 10) @ [digit (n mod 10)]"
      using False by (subst str_nat.simps) simp
    have "n mod 10 < 10" by simp
    from digit_in [OF this] 1 [OF False] show ?thesis unfolding e by simp
  qed
qed

lemma str_nat_nonempty: "str_nat n \<noteq> []"
  by (subst str_nat.simps) simp

lemma str_nat_inj: "str_nat n = str_nat m \<Longrightarrow> n = m"
proof (induction n arbitrary: m rule: str_nat.induct)
  case (1 n)
  show ?case
  proof (cases "n < 10")
    case True
    show ?thesis
    proof (cases "m < 10")
      case m: True
      have "str_nat n = [digit n]" using True by (subst str_nat.simps) simp
      moreover have "str_nat m = [digit m]" using m by (subst str_nat.simps) simp
      ultimately have "digit n = digit m" using "1.prems" by simp
      with True m show ?thesis by (rule digit_inj)
    next
      case m: False
      have "length (str_nat n) = 1" using True by (subst str_nat.simps) simp
      moreover have "length (str_nat m) = Suc (length (str_nat (m div 10)))"
        using m by (subst str_nat.simps) simp
      ultimately have "length (str_nat (m div 10)) = 0" using "1.prems" by simp
      with str_nat_nonempty [of "m div 10"] show ?thesis by simp
    qed
  next
    case False
    show ?thesis
    proof (cases "m < 10")
      case m: True
      have "length (str_nat m) = 1" using m by (subst str_nat.simps) simp
      moreover have "length (str_nat n) = Suc (length (str_nat (n div 10)))"
        using False by (subst str_nat.simps) simp
      ultimately have "length (str_nat (n div 10)) = 0" using "1.prems" by simp
      with str_nat_nonempty [of "n div 10"] show ?thesis by simp
    next
      case m: False
      have "str_nat n = str_nat (n div 10) @ [digit (n mod 10)]"
        using False by (subst str_nat.simps) simp
      moreover have "str_nat m = str_nat (m div 10) @ [digit (m mod 10)]"
        using m by (subst str_nat.simps) simp
      ultimately have e: "str_nat (n div 10) = str_nat (m div 10)" "digit (n mod 10) = digit (m mod 10)"
        using "1.prems" by simp_all
      from "1.IH" [OF False e(1)] have "n div 10 = m div 10" .
      moreover have "n mod 10 = m mod 10" by (rule digit_inj [OF _ _ e(2)]) simp_all
      ultimately have "10 * (n div 10) + n mod 10 = 10 * (m div 10) + m mod 10" by simp
      then show ?thesis by simp
    qed
  qed
qed

lemma str_nat_no_sep: "CHR ''_'' \<notin> set (str_nat n)"
  using str_nat_digits [of n] sep_not_digit by blast

lemma str_int_no_sep: "CHR ''_'' \<notin> set (str_int i)"
  by (simp add: str_int_def str_nat_no_sep)

lemma str_nat_no_minus: "hd (str_nat n) \<noteq> CHR ''-''"
proof -
  have "hd (str_nat n) \<in> set (str_nat n)" using str_nat_nonempty by (rule hd_in_set)
  with str_nat_digits [of n] minus_not_digit show ?thesis by auto
qed

lemma str_int_inj: "str_int i = str_int j \<Longrightarrow> i = j"
proof -
  assume e: "str_int i = str_int j"
  have neg: "hd (str_int a) = CHR ''-'' \<longleftrightarrow> a < 0" for a
    using str_nat_no_minus [of "nat a"] by (simp add: str_int_def)
  from e have s: "i < 0 \<longleftrightarrow> j < 0" using neg [of i] neg [of j] by simp
  show "i = j"
  proof (cases "i < 0")
    case True
    with s e have "str_nat (nat (- i)) = str_nat (nat (- j))" by (simp add: str_int_def)
    then have "nat (- i) = nat (- j)" by (rule str_nat_inj)
    with True s show ?thesis by simp
  next
    case False
    with s e have "str_nat (nat i) = str_nat (nat j)" by (simp add: str_int_def)
    then have "nat i = nat j" by (rule str_nat_inj)
    with False s show ?thesis by simp
  qed
qed

lemma split_at_sep:
  "c \<notin> set xs \<Longrightarrow> c \<notin> set xs' \<Longrightarrow> xs @ c # ys = xs' @ c # ys' \<Longrightarrow> xs = xs' \<and> ys = ys'"
proof (induction xs arbitrary: xs')
  case Nil
  then show ?case by (cases xs') auto
next
  case (Cons x xs)
  then show ?case by (cases xs') auto
qed

lemma cell_name_inj:
  "str_int a @ ''_'' @ str_int b = str_int a' @ ''_'' @ str_int b' \<Longrightarrow> a = a' \<and> b = b'"
proof -
  assume "str_int a @ ''_'' @ str_int b = str_int a' @ ''_'' @ str_int b'"
  then have "str_int a @ CHR ''_'' # str_int b = str_int a' @ CHR ''_'' # str_int b'" by simp
  from split_at_sep [OF str_int_no_sep str_int_no_sep this]
  have "str_int a = str_int a'" "str_int b = str_int b'" by simp_all
  then show ?thesis by (simp add: str_int_inj)
qed


section \<open>Rounding toward zero\<close>







lemma square_grid_index_eq:
  "square_grid_index lat lng resolution =
     str_int (py_int (lng / grid_size resolution)) @ ''_'' @
     str_int (py_int (lat / grid_size resolution)) @ ''_'' @ str_int resolution"
  by (simp add: square_grid_index_def)

section \<open>Neighbours of a square cell\<close>

lemma in_neighbors_iff:
  "s \<in> set (square_grid_neighbors grid_x grid_y k) \<longleftrightarrow>
   (\<exists>dx\<in>{- k..k}. \<exists>dy\<in>{- k..k}. \<bar>dx\<bar> + \<bar>dy\<bar> \<le> k \<and>
      s = str_int (grid_x + dx) @ ''_'' @ str_int (grid_y + dy))"
proof -
  have inner: "s \<in> set (concat (map (\<lambda>dy. if \<bar>dx\<bar> + \<bar>dy\<bar> \<le> k
        then [str_int (grid_x + dx) @ ''_'' @ str_int (grid_y + dy)] else []) [- k..k])) \<longleftrightarrow>
      (\<exists>dy\<in>{- k..k}. \<bar>dx\<bar> + \<bar>dy\<bar> \<le> k \<and>
         s = str_int (grid_x + dx) @ ''_'' @ str_int (grid_y + dy))" for dx
    by (auto split: if_splits)
  have "s \<in> set (square_grid_neighbors grid_x grid_y k) \<longleftrightarrow>
      (\<exists>dx\<in>{- k..k}. s \<in> set (concat (map (\<lambda>dy. if \<bar>dx\<bar> + \<bar>dy\<bar> \<le> k
        then [str_int (grid_x + dx) @ ''_'' @ str_int (grid_y + dy)] else []) [- k..k])))"
    unfolding square_grid_neighbors_def by simp
  then show ?thesis unfolding inner .
qed

lemma square_grid_neighbors_set:
  "set (square_grid_neighbors grid_x grid_y k) =
     {str_int (grid_x + dx) @ ''_'' @ str_int (grid_y + dy) | dx dy. \<bar>dx\<bar> + \<bar>dy\<bar> \<le> k}"
  (is "?L = ?R")
proof (rule set_eqI)
  fix s
  show "s \<in> ?L \<longleftrightarrow> s \<in> ?R"
  proof
    assume "s \<in> ?L"
    then show "s \<in> ?R" unfolding in_neighbors_iff by blast
  next
    assume "s \<in> ?R"
    then obtain dx dy where d: "\<bar>dx\<bar> + \<bar>dy\<bar> \<le> k"
      "s = str_int (grid_x + dx) @ ''_'' @ str_int (grid_y + dy)" by blast
    from d(1) have "dx \<in> {- k..k}" "dy \<in> {- k..k}" by auto
    with d show "s \<in> ?L" unfolding in_neighbors_iff by blast
  qed
qed

lemma neighbors_example:
  "square_grid_neighbors 325063 96170 1 =
   [''325062_96170'', ''325063_96169'', ''325063_96170'', ''325063_96171'', ''325064_96170'']"
  by (simp add: square_grid_neighbors_def str_int_def digit_def upto.simps)

text \<open>C8: for every grid coordinate pair and every \<open>k\<close>, an identifier \<open>x'_y'\<close> is in
  the result of the neighbours function exactly when the Manhattan distance of
  \<open>(x', y')\<close> from the centre is at most \<open>k\<close>; every element of the result is such an
  identifier; and for \<open>k \<ge> 0\<close> the result holds the centre cell itself.\<close>

theorem square_grid_neighbors_manhattan:
  "(str_int x' @ ''_'' @ str_int y' \<in> set (square_grid_neighbors grid_x grid_y k) \<longleftrightarrow>
      \<bar>x' - grid_x\<bar> + \<bar>y' - grid_y\<bar> \<le> k) \<and>
   (\<forall>s\<in>set (square_grid_neighbors grid_x grid_y k).
      \<exists>x' y'. s = str_int x' @ ''_'' @ str_int y') \<and>
   (0 \<le> k \<longrightarrow>
      str_int grid_x @ ''_'' @ str_int grid_y \<in> set (square_grid_neighbors grid_x grid_y k))"
proof (intro conjI impI ballI)
  show "str_int x' @ ''_'' @ str_int y' \<in> set (square_grid_neighbors grid_x grid_y k) \<longleftrightarrow>
      \<bar>x' - grid_x\<bar> + \<bar>y' - grid_y\<bar> \<le> k"
  proof
    assume "str_int x' @ ''_'' @ str_int y' \<in> set (square_grid_neighbors grid_x grid_y k)"
    then obtain dx dy where d: "\<bar>dx\<bar> + \<bar>dy\<bar> \<le> k"
      "str_int x' @ ''_'' @ str_int y' = str_int (grid_x + dx) @ ''_'' @ str_int (grid_y + dy)"
      unfolding square_grid_neighbors_set by blast
    from cell_name_inj [OF d(2)] have "x' = grid_x + dx" "y' = grid_y + dy" by simp_all
    with d(1) show "\<bar>x' - grid_x\<bar> + \<bar>y' - grid_y\<bar> \<le> k" by simp
  next
    assume a: "\<bar>x' - grid_x\<bar> + \<bar>y' - grid_y\<bar> \<le> k"
    have "str_int x' @ ''_'' @ str_int y' =
        str_int (grid_x + (x' - grid_x)) @ ''_'' @ str_int (grid_y + (y' - grid_y))" by simp
    with a show "str_int x' @ ''_'' @ str_int y' \<in> set (square_grid_neighbors grid_x grid_y k)"
      unfolding square_grid_neighbors_set by blast
  qed
next
  fix s assume "s \<in> set (square_grid_neighbors grid_x grid_y k)"
  then show "\<exists>x' y'. s = str_int x' @ ''_'' @ str_int y'"
    unfolding square_grid_neighbors_set by blast
next
  assume k: "0 \<le> k"
  have "str_int grid_x @ ''_'' @ str_int grid_y =
        str_int (grid_x + 0) @ ''_'' @ str_int (grid_y + 0)" by simp
  moreover from k have "\<bar>0::int\<bar> + \<bar>0::int\<bar> \<le> k" by simp
  ultimately show "str_int grid_x @ ''_'' @ str_int grid_y \<in> set (square_grid_neighbors grid_x grid_y k)"
    unfolding square_grid_neighbors_set by blast
qed

text \<open>The theorem at a concrete input.\<close>

theorem square_grid_neighbors_manhattan_witness:
  "str_int 325063 @ ''_'' @ str_int 96171 \<in> set (square_grid_neighbors 325063 96170 1) \<and>
   \<bar>325063 - 325063\<bar> + \<bar>96171 - 96170 :: int\<bar> \<le> 1 \<and>
   str_int 325064 @ ''_'' @ str_int 96171 \<notin> set (square_grid_neighbors 325063 96170 1) \<and>
   \<not> \<bar>325064 - 325063\<bar> + \<bar>96171 - 96170 :: int\<bar> \<le> 1 \<and>
   (0::int) \<le> 1 \<and>
   str_int 325063 @ ''_'' @ str_int 96170 \<in> set (square_grid_neighbors 325063 96170 1)"
proof -
  have a: "\<bar>325063 - 325063\<bar> + \<bar>96171 - 96170 :: int\<bar> \<le> 1" by simp
  have b: "\<not> \<bar>325064 - 325063\<bar> + \<bar>96171 - 96170 :: int\<bar> \<le> 1" by simp
  have k: "(0::int) \<le> 1" by simp
  note t = square_grid_neighbors_manhattan [of _ _ 325063 96170 1]
  from t [of 325063 96171] a
  have 1: "str_int 325063 @ ''_'' @ str_int 96171 \<in> set (square_grid_neighbors 325063 96170 1)"
    by blast
  from t [of 325064 96171] b
  have 2: "str_int 325064 @ ''_'' @ str_int 96171 \<notin> set (square_grid_neighbors 325063 96170 1)"
    by blast
  from t [of 325063 96170] k
  have 3: "str_int 325063 @ ''_'' @ str_int 96170 \<in> set (square_grid_neighbors 325063 96170 1)"
    by blast
  from 1 a 2 b k 3 show ?thesis by (intro conjI)
qed



section \<open>The index of a point\<close>




section \<open>Index and neighbours\<close>

lemma index_not_cell_name:
  "str_int a @ ''_'' @ str_int b @ ''_'' @ str_int c \<noteq> str_int x @ ''_'' @ str_int y"
proof
  assume "str_int a @ ''_'' @ str_int b @ ''_'' @ str_int c = str_int x @ ''_'' @ str_int y"
  then have "str_int a @ CHR ''_'' # (str_int b @ CHR ''_'' # str_int c) = str_int x @ CHR ''_'' # str_int y"
    by simp
  from split_at_sep [OF str_int_no_sep str_int_no_sep this]
  have "str_int b @ CHR ''_'' # str_int c = str_int y" by simp
  then have "CHR ''_'' \<in> set (str_int y)" by (metis in_set_conv_decomp)
  with str_int_no_sep show False by blast
qed

lemma seoul_index:
  "square_grid_index (375665 / 10000) (126978 / 1000) 8 = ''325063_96170_8''"
  by (simp add: square_grid_index_def grid_size_def py_int_def str_int_def digit_def)

lemma seoul_coords:
  "py_int ((126978 / 1000) / grid_size 8) = 325063" "py_int ((375665 / 10000) / grid_size 8) = 96170"
  by (simp_all add: grid_size_def py_int_def)

text \<open>C5 (amended): the neighbours function works on the grid coordinates that the index
  function computes, and for \<open>k \<ge> 0\<close> its result holds the identifier \<open>x_y\<close> of those
  coordinates; the identifier of the index function is that identifier followed by
  \<open>_\<close> and the resolution, and it is in no result of the neighbours function.\<close>

theorem neighbors_encoding:
  "(0 \<le> k \<longrightarrow>
      str_int (py_int (lng / grid_size resolution)) @ ''_'' @
      str_int (py_int (lat / grid_size resolution))
      \<in> set (square_grid_neighbors (py_int (lng / grid_size resolution))
                 (py_int (lat / grid_size resolution)) k)) \<and>
   square_grid_index lat lng resolution =
     (str_int (py_int (lng / grid_size resolution)) @ ''_'' @
      str_int (py_int (lat / grid_size resolution))) @ ''_'' @ str_int resolution \<and>
   square_grid_index lat lng resolution \<notin> set (square_grid_neighbors grid_x grid_y k')"
proof (intro conjI impI)
  let ?x = "py_int (lng / grid_size resolution)" and ?y = "py_int (lat / grid_size resolution)"
  assume k: "0 \<le> k"
  have "str_int ?x @ ''_'' @ str_int ?y = str_int (?x + 0) @ ''_'' @ str_int (?y + 0)" by simp
  moreover from k have "\<bar>0::int\<bar> + \<bar>0::int\<bar> \<le> k" by simp
  ultimately show "str_int ?x @ ''_'' @ str_int ?y \<in> set (square_grid_neighbors ?x ?y k)"
    unfolding square_grid_neighbors_set by blast
next
  show "square_grid_index lat lng resolution =
     (str_int (py_int (lng / grid_size resolution)) @ ''_'' @
      str_int (py_int (lat / grid_size resolution))) @ ''_'' @ str_int resolution"
    by (simp add: square_grid_index_eq)
next
  show "square_grid_index lat lng resolution \<notin> set (square_grid_neighbors grid_x grid_y k')"
  proof
    assume "square_grid_index lat lng resolution \<in> set (square_grid_neighbors grid_x grid_y k')"
    then obtain dx dy where "square_grid_index lat lng resolution =
        str_int (grid_x + dx) @ ''_'' @ str_int (grid_y + dy)"
      unfolding square_grid_neighbors_set by blast
    then show False unfolding square_grid_index_eq by (rule index_not_cell_name [THEN notE])
  qed
qed

text \<open>The theorem at a concrete input.\<close>

theorem neighbors_encoding_witness:
  "(0::int) \<le> 1 \<and>
   str_int 325063 @ ''_'' @ str_int 96170 \<in> set (square_grid_neighbors 325063 96170 1) \<and>
   square_grid_index (375665 / 10000) (126978 / 1000) 8 =
     (str_int 325063 @ ''_'' @ str_int 96170) @ ''_'' @ str_int 8 \<and>
   square_grid_index (375665 / 10000) (126978 / 1000) 8 \<notin> set (square_grid_neighbors 325063 96170 1)"
proof -
  have k: "(0::int) \<le> 1" by simp
  note t = neighbors_encoding [of 1 "126978 / 1000" 8 "375665 / 10000" 325063 96170 1,
      unfolded seoul_coords]
  from t k have a: "str_int 325063 @ ''_'' @ str_int 96170 \<in> set (square_grid_neighbors 325063 96170 1)"
    by blast
  from t have b: "square_grid_index (375665 / 10000) (126978 / 1000) 8 =
     (str_int 325063 @ ''_'' @ str_int 96170) @ ''_'' @ str_int 8" by blast
  from t have c: "square_grid_index (375665 / 10000) (126978 / 1000) 8 \<notin>
     set (square_grid_neighbors 325063 96170 1)" by blast
  from k a b c show ?thesis by (intro conjI)
qed

text \<open>C5 as stated fails at the centre point of the source's neighbour test (latitude
  37.5665, longitude 126.9780, resolution 8): the identifier of the point is not among the
  neighbours of its own grid coordinates.\<close>

theorem index_not_in_neighbors_counterexample:
  "square_grid_index (375665 / 10000) (126978 / 1000) 8 = ''325063_96170_8'' \<and>
   py_int ((126978 / 1000) / grid_size 8) = 325063 \<and>
   py_int ((375665 / 10000) / grid_size 8) = 96170 \<and>
   square_grid_neighbors 325063 96170 1 =
     [''325062_96170'', ''325063_96169'', ''325063_96170'', ''325063_96171'', ''325064_96170''] \<and>
   ''325063_96170_8'' \<notin>
     set [''325062_96170'', ''325063_96169'', ''325063_96170'', ''325063_96171'', ''325064_96170'']"
proof -
  have "''325063_96170_8'' \<notin>
     set [''325062_96170'', ''325063_96169'', ''325063_96170'', ''325063_96171'', ''325064_96170'']"
    by simp
  with seoul_index seoul_coords neighbors_example show ?thesis by (intro conjI)
qed

section \<open>The cell at coordinate 0\<close>



end
